theory Spec2Isabelle
  imports
    Main
    "HOL-Library.FSet"
    "HOL-Library.Word"
    "HOL-Library.Sublist"
    "HOL-Library.AList"
    "HOL-Library.Char_ord"
    "HOL-Library.List_Lexorder"
begin

unbundle bit_operations_syntax

section \<open>The tweet scraper of \<^verbatim>\<open>scrape.py\<close>\<close>

text \<open>
  The script has one function, \<^verbatim>\<open>scrape_tweets\<close>. It reads a progress file, opens a
  browser and, for each configured date range that is not yet marked as checked, scrolls
  through a search page collecting tweet texts into a set until the set holds 500 of them;
  then it writes the set to \<^verbatim>\<open>week<N>.json\<close> and rewrites the progress file.

  The embedding keeps the control flow of the function. The browser, the clock and the
  console are not computed: every call to them is recorded as an event in a trace, and the
  answers of the browser (the texts found by a scan, the page heights) are read from a
  description of the page that is a parameter of the model. The \<^verbatim>\<open>while\<close> loop may
  run forever, so it is a partial function into \<open>option\<close>, where \<open>None\<close> means that the
  loop never exits.
\<close>

subsection \<open>Configuration\<close>

record date_range =
  start_date :: string
  end_date :: string

definition date_ranges :: "date_range list" where
  "date_ranges =
    [\<lparr>start_date = ''2024-08-09'', end_date = ''2024-08-15''\<rparr>,
     \<lparr>start_date = ''2024-08-16'', end_date = ''2024-08-22''\<rparr>,
     \<lparr>start_date = ''2024-08-23'', end_date = ''2024-08-29''\<rparr>,
     \<lparr>start_date = ''2024-08-30'', end_date = ''2024-09-13''\<rparr>,
     \<lparr>start_date = ''2024-09-14'', end_date = ''2024-09-19''\<rparr>,
     \<lparr>start_date = ''2024-09-20'', end_date = ''2024-09-26''\<rparr>,
     \<lparr>start_date = ''2024-09-27'', end_date = ''2024-10-03''\<rparr>,
     \<lparr>start_date = ''2024-10-04'', end_date = ''2024-10-18''\<rparr>,
     \<lparr>start_date = ''2024-10-19'', end_date = ''2024-10-24''\<rparr>,
     \<lparr>start_date = ''2024-10-25'', end_date = ''2024-10-31''\<rparr>,
     \<lparr>start_date = ''2024-11-01'', end_date = ''2024-11-07''\<rparr>,
     \<lparr>start_date = ''2024-11-08'', end_date = ''2024-11-22''\<rparr>,
     \<lparr>start_date = ''2024-11-23'', end_date = ''2024-11-28''\<rparr>,
     \<lparr>start_date = ''2024-11-29'', end_date = ''2024-12-05''\<rparr>,
     \<lparr>start_date = ''2024-12-06'', end_date = ''2024-12-12''\<rparr>,
     \<lparr>start_date = ''2024-12-13'', end_date = ''2024-12-19''\<rparr>]"

definition progress_file :: string where
  "progress_file = ''progress.json''"

text \<open>The size the collected set has to reach: the literal of \<^verbatim>\<open>while len(tweets) < 500\<close>.\<close>

definition threshold :: nat where
  "threshold = 500"

subsection \<open>Strings built by the f-strings\<close>

text \<open>\<^verbatim>\<open>str(n)\<close> for a non-negative integer: its decimal digits.\<close>

definition digit_char :: "nat \<Rightarrow> char" where
  "digit_char d = ''0123456789'' ! d"

fun string_of_nat :: "nat \<Rightarrow> string" where
  "string_of_nat n =
     (if n < 10 then [digit_char n]
      else string_of_nat (n div 10) @ [digit_char (n mod 10)])"

declare string_of_nat.simps [simp del]

text \<open>\<^verbatim>\<open>date_key = f"{date_range['start']}_to_{date_range['end']}"\<close>\<close>

definition date_key :: "date_range \<Rightarrow> string" where
  "date_key dr = start_date dr @ ''_to_'' @ end_date dr"

text \<open>\<^verbatim>\<open>week_file = f"week{i+1}.json"\<close>, with \<open>i\<close> the index given by \<^verbatim>\<open>enumerate\<close>.\<close>

definition week_file :: "nat \<Rightarrow> string" where
  "week_file i = ''week'' @ string_of_nat (i + 1) @ ''.json''"

definition search_url :: "date_range \<Rightarrow> string" where
  "search_url dr =
     ''https://twitter.com/search?q=mourinho%20lang%3Atr%20since%3A'' @ start_date dr
       @ ''%20until%3A'' @ end_date dr @ ''&src=typed_query&f=live''"

subsection \<open>Values read from and written to JSON files\<close>

text \<open>
  What \<^verbatim>\<open>json.load\<close> can return. A float is its 64 bits (IEEE 754 binary64), which is
  enough to say when it is zero. The keys of a JSON object are strings; a dict keeps its
  entries in insertion order, so it is an association list.
\<close>

datatype pyval =
    PNone
  | PBool bool
  | PInt int
  | PFloat "64 word"
  | PStr string
  | PList "pyval list"
  | PDict "(string \<times> pyval) list"

text \<open>Truth value of an object in a condition: zero, the empty containers and \<^verbatim>\<open>None\<close>
  are false. A float is zero when all its bits but the sign are.\<close>

fun truthy :: "pyval \<Rightarrow> bool" where
  "truthy PNone = False"
| "truthy (PBool b) = b"
| "truthy (PInt n) = (n \<noteq> 0)"
| "truthy (PFloat w) = (w AND mask 63 \<noteq> 0)"
| "truthy (PStr s) = (s \<noteq> [])"
| "truthy (PList xs) = (xs \<noteq> [])"
| "truthy (PDict d) = (d \<noteq> [])"

datatype error = JSONDecodeError | TypeError | KeyError

text \<open>\<^verbatim>\<open>k in s\<close> for two strings: \<open>k\<close> occurs in \<open>s\<close> as a contiguous piece.\<close>

fun is_substring :: "string \<Rightarrow> string \<Rightarrow> bool" where
  "is_substring k [] = (k = [])"
| "is_substring k (c # cs) = (prefix k (c # cs) \<or> is_substring k cs)"

text \<open>\<^verbatim>\<open>k in v\<close> with \<open>k\<close> a string: a key of a dict, an element of a list, a piece of a
  string; the other values are not containers.\<close>

fun py_contains :: "string \<Rightarrow> pyval \<Rightarrow> error + bool" where
  "py_contains k (PDict d) = Inr (map_of d k \<noteq> None)"
| "py_contains k (PList xs) = Inr (PStr k \<in> set xs)"
| "py_contains k (PStr s) = Inr (is_substring k s)"
| "py_contains k PNone = Inl TypeError"
| "py_contains k (PBool b) = Inl TypeError"
| "py_contains k (PInt n) = Inl TypeError"
| "py_contains k (PFloat w) = Inl TypeError"

text \<open>\<^verbatim>\<open>v[k]\<close> with \<open>k\<close> a string: only a dict can be indexed by a string.\<close>

fun py_getitem :: "pyval \<Rightarrow> string \<Rightarrow> error + pyval" where
  "py_getitem (PDict d) k = (case map_of d k of None \<Rightarrow> Inl KeyError | Some v \<Rightarrow> Inr v)"
| "py_getitem PNone k = Inl TypeError"
| "py_getitem (PBool b) k = Inl TypeError"
| "py_getitem (PInt n) k = Inl TypeError"
| "py_getitem (PFloat w) k = Inl TypeError"
| "py_getitem (PStr s) k = Inl TypeError"
| "py_getitem (PList xs) k = Inl TypeError"

text \<open>\<^verbatim>\<open>v[k] = x\<close> with \<open>k\<close> a string: a dict replaces the value of a key it has, in
  place, and appends a key it does not have.\<close>

fun py_setitem :: "pyval \<Rightarrow> string \<Rightarrow> pyval \<Rightarrow> error + pyval" where
  "py_setitem (PDict d) k x = Inr (PDict (AList.update k x d))"
| "py_setitem PNone k x = Inl TypeError"
| "py_setitem (PBool b) k x = Inl TypeError"
| "py_setitem (PInt n) k x = Inl TypeError"
| "py_setitem (PFloat w) k x = Inl TypeError"
| "py_setitem (PStr s) k x = Inl TypeError"
| "py_setitem (PList xs) k x = Inl TypeError"

subsection \<open>Files, events and the state of a run\<close>

text \<open>A file either holds a JSON value or something \<^verbatim>\<open>json.load\<close> rejects.\<close>

datatype file_content = Unparsable | Json pyval

type_synonym filesystem = "string \<rightharpoonup> file_content"

text \<open>What the script does to the outside, in the order it does it.\<close>

datatype event =
    Print string
  | Launch_browser
  | Get string
  | Sleep nat
  | Sleep_uniform nat nat
  | Find_elements
  | Scroll_to_bottom
  | Read_height
  | Write_file string pyval
  | Quit

text \<open>
  The page a search URL shows: the height read right after loading it, and for the
  \<open>n\<close>-th turn of the loop (from 0) the texts of the elements the scan finds and the
  height read after the scroll.
\<close>

record page =
  initial_height :: int
  texts_at :: "nat \<Rightarrow> string list"
  height_at :: "nat \<Rightarrow> int"

type_synonym browser = "string \<Rightarrow> page"

record state =
  files :: filesystem
  checked_ranges :: pyval
  trace :: "event list"

datatype outcome = Raised error filesystem "event list" | Returned state

subsection \<open>Loading the progress file\<close>

text \<open>Lines 32 to 37: the file's value if the file exists, an empty dict otherwise.\<close>

definition load_progress :: "filesystem \<Rightarrow> error + pyval" where
  "load_progress fs =
     (case fs progress_file of
        None \<Rightarrow> Inr (PDict [])
      | Some Unparsable \<Rightarrow> Inl JSONDecodeError
      | Some (Json v) \<Rightarrow> Inr v)"

text \<open>Line 53: \<^verbatim>\<open>date_key in checked_ranges and checked_ranges[date_key]\<close>; the second
  operand is evaluated only when the first holds.\<close>

definition should_skip :: "pyval \<Rightarrow> string \<Rightarrow> error + bool" where
  "should_skip cr k =
     (case py_contains k cr of
        Inl e \<Rightarrow> Inl e
      | Inr False \<Rightarrow> Inr False
      | Inr True \<Rightarrow> (case py_getitem cr k of Inl e \<Rightarrow> Inl e | Inr v \<Rightarrow> Inr (truthy v)))"

subsection \<open>The scroll-and-collect loop\<close>

text \<open>The local variables of the loop, the number of turns made so far (which selects the
  browser's next answers) and the events of this date range.\<close>

record loop_state =
  tweets :: "string fset"
  last_height :: int
  scroll_attempts :: nat
  turns :: nat
  events :: "event list"

text \<open>Lines 80 to 88: the new value of \<^verbatim>\<open>scroll_attempts\<close> and the events of the branch.\<close>

definition check_stall :: "int \<Rightarrow> int \<Rightarrow> nat \<Rightarrow> nat \<times> event list" where
  "check_stall new_height old_height attempts =
     (if new_height = old_height then
        (let attempts1 = attempts + 1;
             said = [Print (''No new tweets loaded. Scroll attempts: '' @ string_of_nat attempts1)]
         in if attempts1 \<ge> 3
            then (0, said @ [Print ''Pausing to mimic human behavior...'', Sleep_uniform 10 20])
            else (attempts1, said))
      else (0, []))"

text \<open>Lines 67 to 90: one turn of the loop.\<close>

definition loop_body :: "page \<Rightarrow> loop_state \<Rightarrow> loop_state" where
  "loop_body pg s =
     (let tweets1 = fold finsert (texts_at pg (turns s)) (tweets s);
          new_height = height_at pg (turns s);
          (attempts1, stall_events) = check_stall new_height (last_height s) (scroll_attempts s)
      in \<lparr>tweets = tweets1,
          last_height = new_height,
          scroll_attempts = attempts1,
          turns = turns s + 1,
          events = events s
            @ [Find_elements,
               Print (''Collected '' @ string_of_nat (fcard tweets1) @ '' tweets so far.''),
               Scroll_to_bottom, Sleep_uniform 2 5, Read_height]
            @ stall_events\<rparr>)"

text \<open>Line 66: \<^verbatim>\<open>while len(tweets) < 500\<close>.\<close>

partial_function (option) collect_loop :: "page \<Rightarrow> loop_state \<Rightarrow> loop_state option" where
  "collect_loop pg s =
     (if fcard (tweets s) < threshold then collect_loop pg (loop_body pg s) else Some s)"

text \<open>Lines 57 to 64: what precedes the loop.\<close>

definition enter_range :: "browser \<Rightarrow> date_range \<Rightarrow> loop_state" where
  "enter_range br dr =
     \<lparr>tweets = {||},
      last_height = initial_height (br (search_url dr)),
      scroll_attempts = 0,
      turns = 0,
      events = [Print (''Scraping tweets from '' @ start_date dr @ '' to '' @ end_date dr @ ''...''),
                Get (search_url dr), Sleep 5, Read_height]\<rparr>"

text \<open>\<^verbatim>\<open>list(tweets)\<close>: the elements of the set, each once. Python leaves the order open;
  the model lists them in increasing order.\<close>

definition list_of_set :: "string fset \<Rightarrow> pyval" where
  "list_of_set S = PList (map PStr (sorted_list_of_fset S))"

text \<open>Lines 92 to 99: what follows the loop.\<close>

definition save_range :: "nat \<Rightarrow> date_range \<Rightarrow> state \<Rightarrow> loop_state \<Rightarrow> outcome" where
  "save_range i dr st s =
     (let written = list_of_set (tweets s);
          files1 = (files st)(week_file i \<mapsto> Json written);
          trace1 = trace st @ events s
            @ [Print (''Finished scraping '' @ string_of_nat (fcard (tweets s)) @ '' tweets for ''
                      @ start_date dr @ '' to '' @ end_date dr),
               Write_file (week_file i) written]
      in case py_setitem (checked_ranges st) (date_key dr) (PBool True) of
           Inl e \<Rightarrow> Raised e files1 trace1
         | Inr cr \<Rightarrow>
             Returned \<lparr>files = files1(progress_file \<mapsto> Json cr),
                       checked_ranges = cr,
                       trace = trace1 @ [Write_file progress_file cr]\<rparr>)"

text \<open>Lines 49 to 99: the body of the \<^verbatim>\<open>for\<close> loop for the range at index \<open>i\<close>.\<close>

definition scrape_range :: "browser \<Rightarrow> nat \<Rightarrow> date_range \<Rightarrow> state \<Rightarrow> outcome option" where
  "scrape_range br i dr st =
     (case should_skip (checked_ranges st) (date_key dr) of
        Inl e \<Rightarrow> Some (Raised e (files st) (trace st))
      | Inr True \<Rightarrow>
          Some (Returned (st\<lparr>trace := trace st
                  @ [Print (''Skipping already checked range: '' @ date_key dr)]\<rparr>))
      | Inr False \<Rightarrow>
          (case collect_loop (br (search_url dr)) (enter_range br dr) of
             None \<Rightarrow> None
           | Some s \<Rightarrow> Some (save_range i dr st s)))"

text \<open>Line 48: the \<^verbatim>\<open>for\<close> loop; an exception ends it.\<close>

fun scrape_ranges :: "browser \<Rightarrow> (nat \<times> date_range) list \<Rightarrow> state \<Rightarrow> outcome option" where
  "scrape_ranges br [] st = Some (Returned st)"
| "scrape_ranges br ((i, dr) # rest) st =
     (case scrape_range br i dr st of
        None \<Rightarrow> None
      | Some (Raised e fs tr) \<Rightarrow> Some (Raised e fs tr)
      | Some (Returned st1) \<Rightarrow> scrape_ranges br rest st1)"

text \<open>Lines 39 to 46: the state in which the \<^verbatim>\<open>for\<close> loop starts, with the progress
  map that was loaded.\<close>

definition start_state :: "filesystem \<Rightarrow> pyval \<Rightarrow> state" where
  "start_state fs cr =
     \<lparr>files = fs, checked_ranges = cr,
      trace = [Launch_browser, Get ''https://twitter.com/login'', Sleep 30]\<rparr>"


subsection \<open>Sample pages\<close>

text \<open>\<open>n\<close> different texts, and a page whose every scan finds these \<open>n\<close> texts while its
  height grows with every scroll.\<close>

definition sample_texts :: "nat \<Rightarrow> string list" where
  "sample_texts n = map (\<lambda>k. replicate (Suc k) CHR ''a'') [0..<n]"

definition sample_page :: "nat \<Rightarrow> page" where
  "sample_page n =
     \<lparr>initial_height = 0, texts_at = (\<lambda>k. sample_texts n), height_at = (\<lambda>k. int k + 1)\<rparr>"

text \<open>A browser that shows this page at every URL, and the state of a run that found no
  files and has done nothing yet.\<close>

definition sample_browser :: "nat \<Rightarrow> browser" where
  "sample_browser n url = sample_page n"

definition fresh_state :: state where
  "fresh_state = \<lparr>files = Map.empty, checked_ranges = PDict [], trace = []\<rparr>"

subsection \<open>Reading an outcome\<close>

text \<open>The files and the events a run, or a part of it, has left behind, whether it ended
  with an exception or not.\<close>

fun outcome_files :: "outcome \<Rightarrow> filesystem" where
  "outcome_files (Raised e fs tr) = fs"
| "outcome_files (Returned st) = files st"

fun outcome_trace :: "outcome \<Rightarrow> event list" where
  "outcome_trace (Raised e fs tr) = tr"
| "outcome_trace (Returned st) = trace st"

text \<open>The names of the files that a list of events writes, in the order of the writes.\<close>

fun written :: "event list \<Rightarrow> string list" where
  "written [] = []"
| "written (Write_file name v # evs) = name # written evs"
| "written (other # evs) = written evs"

text \<open>The number of entries of a file that holds a JSON array.\<close>

fun array_length :: "file_content option \<Rightarrow> nat option" where
  "array_length (Some (Json (PList xs))) = Some (length xs)"
| "array_length other = None"

text \<open>The console line of a skipped date range.\<close>

fun is_skip :: "event \<Rightarrow> bool" where
  "is_skip (Print line) = prefix ''Skipping already checked range: '' line"
| "is_skip other = False"

subsection \<open>Marks of completion, as the specification words them\<close>

text \<open>A date range is marked complete in a progress map when the test of line 53 succeeds on
  its key.\<close>

definition marked :: "pyval \<Rightarrow> string \<Rightarrow> bool" where
  "marked cr k = (should_skip cr k = Inr True)"

text \<open>Every date range of \<open>W\<close> that the progress map \<open>cr\<close> marks complete either was marked
  in the map \<open>cr0\<close> already, or has had its output file written by the events \<open>p\<close>.\<close>

definition accounted :: "(nat \<times> date_range) list \<Rightarrow> pyval \<Rightarrow> pyval \<Rightarrow> event list \<Rightarrow> bool" where
  "accounted W cr0 cr p =
     (\<forall>w\<in>set W. marked cr (date_key (snd w)) \<longrightarrow>
        marked cr0 (date_key (snd w)) \<or> week_file (fst w) \<in> set (written p))"

text \<open>The files after a list of events, from the files before it: only a write changes them.\<close>

fun replay :: "filesystem \<Rightarrow> event list \<Rightarrow> filesystem" where
  "replay fs [] = fs"
| "replay fs (Write_file name v # evs) = replay (fs(name \<mapsto> Json v)) evs"
| "replay fs (other # evs) = replay fs evs"

text \<open>The progress file marks a date range complete when it holds a map that does; the files
  are consistent when every configured date range that the progress file marks complete has
  its output file.\<close>

definition progress_marks :: "filesystem \<Rightarrow> string \<Rightarrow> bool" where
  "progress_marks fs k = (case fs progress_file of Some (Json cr) \<Rightarrow> marked cr k | _ \<Rightarrow> False)"

definition consistent :: "filesystem \<Rightarrow> bool" where
  "consistent fs =
     (\<forall>w\<in>set (enumerate 0 date_ranges).
        progress_marks fs (date_key (snd w)) \<longrightarrow> fs (week_file (fst w)) \<noteq> None)"

subsection \<open>A run that skips nothing, as the specification words it\<close>


subsection \<open>Stalls, as the specification words them\<close>

text \<open>The height the \<open>n\<close>-th turn compares the new height with: the one read before the
  loop, or the one read in the turn before.\<close>

fun height_before :: "page \<Rightarrow> nat \<Rightarrow> int" where
  "height_before pg 0 = initial_height pg"
| "height_before pg (Suc n) = height_at pg n"

text \<open>The number of consecutive unchanged-height observations that the first \<open>n\<close> turns
  end with.\<close>

fun unchanged_run :: "page \<Rightarrow> nat \<Rightarrow> nat" where
  "unchanged_run pg 0 = 0"
| "unchanged_run pg (Suc n) =
     (if height_at pg n = height_before pg n then Suc (unchanged_run pg n) else 0)"

text \<open>The long pause of line 85, and how many of them a list of events holds.\<close>

definition long_pause :: event where
  "long_pause = Sleep_uniform 10 20"

definition backoffs :: "event list \<Rightarrow> nat" where
  "backoffs evs = count_list evs long_pause"

section \<open>Properties\<close>

subsection \<open>One turn of the loop\<close>

lemma fold_finsert: "fold finsert xs S = fset_of_list xs |\<union>| S"
  by (induction xs arbitrary: S) auto

lemma tweets_loop_body [simp]:
  "tweets (loop_body pg s) = fset_of_list (texts_at pg (turns s)) |\<union>| tweets s"
  by (simp add: loop_body_def Let_def fold_finsert split: prod.split)

lemma turns_loop_body [simp]: "turns (loop_body pg s) = turns s + 1"
  by (simp add: loop_body_def Let_def split: prod.split)

lemma check_stall_cases:
  "check_stall h l a =
     (if h \<noteq> l then (0, [])
      else if a + 1 \<ge> 3
        then (0, [Print (''No new tweets loaded. Scroll attempts: '' @ string_of_nat (a + 1)),
                  Print ''Pausing to mimic human behavior...'', Sleep_uniform 10 20])
        else (a + 1, [Print (''No new tweets loaded. Scroll attempts: '' @ string_of_nat (a + 1))]))"
  by (simp add: check_stall_def Let_def)

lemma last_height_loop_body [simp]: "last_height (loop_body pg s) = height_at pg (turns s)"
  by (simp add: loop_body_def Let_def split: prod.split)

lemma scroll_attempts_loop_body:
  "scroll_attempts (loop_body pg s) =
     fst (check_stall (height_at pg (turns s)) (last_height s) (scroll_attempts s))"
  by (simp add: loop_body_def Let_def split: prod.split)

lemma events_loop_body:
  "events (loop_body pg s) = events s
     @ [Find_elements,
        Print (''Collected '' @ string_of_nat (fcard (tweets (loop_body pg s))) @ '' tweets so far.''),
        Scroll_to_bottom, Sleep_uniform 2 5, Read_height]
     @ snd (check_stall (height_at pg (turns s)) (last_height s) (scroll_attempts s))"
  by (simp add: loop_body_def Let_def fold_finsert split: prod.split)

lemma funpow_loop_body_Suc: "(loop_body pg ^^ Suc n) s = (loop_body pg ^^ n) (loop_body pg s)"
  by (simp add: funpow_swap1)

lemma collect_loop_sound:
  assumes "collect_loop pg s = Some r"
  shows "\<exists>n. r = (loop_body pg ^^ n) s \<and> threshold \<le> fcard (tweets r)
           \<and> (\<forall>k<n. fcard (tweets ((loop_body pg ^^ k) s)) < threshold)"
proof (rule collect_loop.raw_induct[where P = "\<lambda>pg s r. \<exists>n. r = (loop_body pg ^^ n) s
           \<and> threshold \<le> fcard (tweets r)
           \<and> (\<forall>k<n. fcard (tweets ((loop_body pg ^^ k) s)) < threshold)", OF _ assms])
  fix f :: "page \<Rightarrow> loop_state \<Rightarrow> loop_state option" and pg s r
  assume IH: "\<And>pg s r. f pg s = Some r \<Longrightarrow> \<exists>n. r = (loop_body pg ^^ n) s
           \<and> threshold \<le> fcard (tweets r)
           \<and> (\<forall>k<n. fcard (tweets ((loop_body pg ^^ k) s)) < threshold)"
    and step: "(if fcard (tweets s) < threshold then f pg (loop_body pg s) else Some s) = Some r"
  show "\<exists>n. r = (loop_body pg ^^ n) s \<and> threshold \<le> fcard (tweets r)
           \<and> (\<forall>k<n. fcard (tweets ((loop_body pg ^^ k) s)) < threshold)"
  proof (cases "fcard (tweets s) < threshold")
    case True
    with step have "f pg (loop_body pg s) = Some r" by simp
    from IH[OF this] obtain n where n:
      "r = (loop_body pg ^^ n) (loop_body pg s)" "threshold \<le> fcard (tweets r)"
      "\<forall>k<n. fcard (tweets ((loop_body pg ^^ k) (loop_body pg s))) < threshold" by blast
    have "\<forall>k<Suc n. fcard (tweets ((loop_body pg ^^ k) s)) < threshold"
    proof (intro allI impI)
      fix k assume "k < Suc n"
      show "fcard (tweets ((loop_body pg ^^ k) s)) < threshold"
      proof (cases k)
        case 0 with True show ?thesis by simp
      next
        case (Suc j)
        with \<open>k < Suc n\<close> n(3) show ?thesis by (simp only: funpow_loop_body_Suc)
      qed
    qed
    moreover have "r = (loop_body pg ^^ Suc n) s"
      using n(1) by (simp only: funpow_loop_body_Suc)
    ultimately show ?thesis using n(2) by blast
  next
    case False
    with step have "r = s" by simp
    with False show ?thesis by (intro exI[of _ 0]) simp
  qed
qed

lemma collect_loop_complete:
  "threshold \<le> fcard (tweets ((loop_body pg ^^ n) s)) \<Longrightarrow>
   (\<forall>k<n. fcard (tweets ((loop_body pg ^^ k) s)) < threshold) \<Longrightarrow>
   collect_loop pg s = Some ((loop_body pg ^^ n) s)"
proof (induction n arbitrary: s)
  case 0
  then show ?case by (subst collect_loop.simps) simp
next
  case (Suc n)
  have small: "fcard (tweets s) < threshold" using Suc.prems(2)[rule_format, of 0] by simp
  have a: "threshold \<le> fcard (tweets ((loop_body pg ^^ n) (loop_body pg s)))"
    using Suc.prems(1) by (simp only: funpow_loop_body_Suc)
  have b: "\<forall>k<n. fcard (tweets ((loop_body pg ^^ k) (loop_body pg s))) < threshold"
  proof (intro allI impI)
    fix k assume "k < n"
    then have "Suc k < Suc n" by simp
    from Suc.prems(2)[rule_format, OF this]
    show "fcard (tweets ((loop_body pg ^^ k) (loop_body pg s))) < threshold"
      by (simp only: funpow_loop_body_Suc)
  qed
  from Suc.IH[OF a b] small show ?case
    by (subst collect_loop.simps) (simp only: funpow_loop_body_Suc, simp)
qed

lemma tweets_funpow_subset:
  "tweets s |\<subseteq>| A \<Longrightarrow> (\<forall>n. set (texts_at pg n) \<subseteq> fset A) \<Longrightarrow>
   tweets ((loop_body pg ^^ n) s) |\<subseteq>| A"
proof (induction n)
  case 0 then show ?case by simp
next
  case (Suc n)
  then have "tweets ((loop_body pg ^^ n) s) |\<subseteq>| A" by simp
  moreover have "fset_of_list (texts_at pg m) |\<subseteq>| A" for m
    using Suc.prems(2)[rule_format, of m] by (auto simp: fset_of_list_elem)
  ultimately show ?case by simp
qed

lemma collect_loop_never_exits:
  assumes "fcard A < threshold" "tweets s |\<subseteq>| A" "\<forall>n. set (texts_at pg n) \<subseteq> fset A"
  shows "collect_loop pg s = None"
proof (rule ccontr)
  assume "collect_loop pg s \<noteq> None"
  then obtain r where "collect_loop pg s = Some r" by blast
  from collect_loop_sound[OF this] obtain n where
    "r = (loop_body pg ^^ n) s" "threshold \<le> fcard (tweets r)" by blast
  moreover have "fcard (tweets ((loop_body pg ^^ n) s)) \<le> fcard A"
    using tweets_funpow_subset[OF assms(2,3)] by (rule fcard_mono)
  ultimately show False using assms(1) by simp
qed

lemma distinct_sample_texts: "distinct (sample_texts n)"
  by (auto simp: sample_texts_def distinct_map inj_on_def dest: arg_cong[where f=length])

lemma length_sample_texts: "length (sample_texts n) = n"
  by (simp add: sample_texts_def)

lemma fcard_fset_of_list: "distinct xs \<Longrightarrow> fcard (fset_of_list xs) = length xs"
  by (simp add: fcard.rep_eq fset_of_list.rep_eq distinct_card)

lemma fcard_sample_texts: "fcard (fset_of_list (sample_texts n)) = n"
  by (simp add: fcard_fset_of_list distinct_sample_texts length_sample_texts)

lemma collect_loop_one_turn:
  "fcard (tweets s) < threshold \<Longrightarrow> threshold \<le> fcard (tweets (loop_body pg s)) \<Longrightarrow>
   collect_loop pg s = Some (loop_body pg s)"
  using collect_loop_complete[where pg = pg and n = 1 and s = s] by simp

lemma collect_sample_page:
  "threshold \<le> n \<Longrightarrow> tweets s = {||} \<Longrightarrow> collect_loop (sample_page n) s = Some (loop_body (sample_page n) s)"
  by (rule collect_loop_one_turn) (simp_all add: sample_page_def fcard_sample_texts fcard_fempty threshold_def)

subsection \<open>The stall counter\<close>

text \<open>
  C10: whatever the state at the start of a turn, at its end the stall counter is 0, 1 or 2:
  it is either zero or one more than before, and a turn that would bring it to 3 sets it to
  zero before it ends. The height kept for the next comparison is the height read in this
  turn, whether it changed or not.
\<close>

theorem stall_counter_after_turn:
  "scroll_attempts (loop_body pg s) \<in> {0, 1, 2}
   \<and> (scroll_attempts (loop_body pg s) = 0
        \<or> scroll_attempts (loop_body pg s) = scroll_attempts s + 1)
   \<and> last_height (loop_body pg s) = height_at pg (turns s)"
  by (auto simp add: scroll_attempts_loop_body check_stall_cases)

lemma backoffs_loop_body:
  "backoffs (events (loop_body pg s)) = backoffs (events s)
     + (if height_at pg (turns s) = last_height s \<and> 3 \<le> scroll_attempts s + 1 then 1 else 0)"
  by (simp add: backoffs_def long_pause_def events_loop_body check_stall_cases)

lemma scroll_attempts_loop_body_if:
  "scroll_attempts (loop_body pg s) =
     (if height_at pg (turns s) = last_height s \<and> scroll_attempts s + 1 < 3
      then scroll_attempts s + 1 else 0)"
  by (simp add: scroll_attempts_loop_body check_stall_cases)

lemma turns_funpow: "turns ((loop_body pg ^^ n) s) = turns s + n"
  by (induction n) simp_all

lemma turns_enter_range [simp]: "turns (enter_range br dr) = 0"
  by (simp add: enter_range_def)

lemma last_height_funpow:
  "last_height s = initial_height pg \<Longrightarrow> turns s = 0 \<Longrightarrow>
   last_height ((loop_body pg ^^ n) s) = height_before pg n"
  by (cases n) (simp_all add: turns_funpow)

lemma scroll_attempts_funpow:
  assumes "last_height s = initial_height pg" "turns s = 0" "scroll_attempts s = 0"
  shows "scroll_attempts ((loop_body pg ^^ n) s) = unchanged_run pg n mod 3"
proof (induction n)
  case 0
  with assms show ?case by simp
next
  case (Suc n)
  have "scroll_attempts ((loop_body pg ^^ Suc n) s)
      = (if height_at pg n = height_before pg n \<and> unchanged_run pg n mod 3 + 1 < 3
         then unchanged_run pg n mod 3 + 1 else 0)"
    using Suc last_height_funpow[OF assms(1,2), of n] assms(2)
    by (simp add: scroll_attempts_loop_body_if turns_funpow)
  also have "\<dots> = unchanged_run pg (Suc n) mod 3"
  proof -
    have "unchanged_run pg n mod 3 < 3" by simp
    then show ?thesis by (auto simp add: mod_Suc)
  qed
  finally show ?case .
qed

lemma backoffs_funpow:
  assumes "last_height s = initial_height pg" "turns s = 0" "scroll_attempts s = 0"
  shows "backoffs (events ((loop_body pg ^^ Suc n) s)) = backoffs (events ((loop_body pg ^^ n) s))
     + (if 0 < unchanged_run pg (Suc n) \<and> unchanged_run pg (Suc n) mod 3 = 0 then 1 else 0)"
proof -
  have "(height_at pg n = height_before pg n \<and> 3 \<le> unchanged_run pg n mod 3 + 1)
      = (0 < unchanged_run pg (Suc n) \<and> unchanged_run pg (Suc n) mod 3 = 0)"
  proof -
    have "unchanged_run pg n mod 3 < 3" by simp
    then show ?thesis by (auto simp add: mod_Suc)
  qed
  then show ?thesis
    using last_height_funpow[OF assms(1,2), of n] scroll_attempts_funpow[OF assms, of n] assms(2)
    by (simp add: backoffs_loop_body turns_funpow)
qed

text \<open>
  C3: in every turn, the stall counter becomes zero when the height read after the scroll
  differs from the height kept from before, and one more than it was when the two are equal,
  unless that brings it to 3: then one long pause is made in this turn and the counter
  becomes zero. Whether the loop goes on after the turn depends on the size of the collected
  set only, pause or not. Over the turns of a date range, the counter is the length of the
  current run of unchanged heights modulo 3, and a long pause is made in exactly the turns
  that bring this run to a positive multiple of 3.
\<close>

theorem stall_counter_and_backoff:
  "scroll_attempts (loop_body pg s) =
     (if height_at pg (turns s) = last_height s \<and> scroll_attempts s + 1 < 3
      then scroll_attempts s + 1 else 0)
   \<and> backoffs (events (loop_body pg s)) = backoffs (events s)
       + (if height_at pg (turns s) = last_height s \<and> 3 \<le> scroll_attempts s + 1 then 1 else 0)
   \<and> collect_loop pg (loop_body pg s) =
       (if fcard (tweets (loop_body pg s)) < 500
        then collect_loop pg (loop_body pg (loop_body pg s)) else Some (loop_body pg s))
   \<and> scroll_attempts ((loop_body (br (search_url dr)) ^^ n) (enter_range br dr))
       = unchanged_run (br (search_url dr)) n mod 3
   \<and> backoffs (events ((loop_body (br (search_url dr)) ^^ Suc n) (enter_range br dr)))
       = backoffs (events ((loop_body (br (search_url dr)) ^^ n) (enter_range br dr)))
         + (if 0 < unchanged_run (br (search_url dr)) (Suc n)
               \<and> unchanged_run (br (search_url dr)) (Suc n) mod 3 = 0 then 1 else 0)"
proof -
  have start: "last_height (enter_range br dr) = initial_height (br (search_url dr))"
    "turns (enter_range br dr) = 0" "scroll_attempts (enter_range br dr) = 0"
    by (simp_all add: enter_range_def)
  have "collect_loop pg (loop_body pg s) =
       (if fcard (tweets (loop_body pg s)) < 500
        then collect_loop pg (loop_body pg (loop_body pg s)) else Some (loop_body pg s))"
    by (subst collect_loop.simps) (simp only: threshold_def)
  then show ?thesis
    using scroll_attempts_loop_body_if[of pg s] backoffs_loop_body[of pg s]
      scroll_attempts_funpow[OF start, of n] backoffs_funpow[OF start, of n]
    by (intro conjI)
qed

subsection \<open>When the loop exits\<close>

lemma tweets_funpow:
  "fset (tweets ((loop_body pg ^^ n) s)) = fset (tweets s) \<union> (\<Union>k<n. set (texts_at pg (turns s + k)))"
proof (induction n)
  case 0 show ?case by simp
next
  case (Suc n)
  then show ?case
    by (auto simp add: turns_funpow fset_of_list.rep_eq lessThan_Suc)
qed

lemma tweets_enter_range [simp]: "tweets (enter_range br dr) = {||}"
  by (simp add: enter_range_def)

text \<open>
  C5: if all the texts that the page of a date range ever shows lie in a set of fewer than
  500 texts, the loop does not exit, whatever the heights read, the stall counter and the
  number of turns made are; and processing a date range that is not skipped does not come
  to an end.
\<close>

theorem too_few_texts_never_exits:
  assumes "fcard A < 500" and "\<forall>n. set (texts_at pg n) \<subseteq> fset A" and "tweets s |\<subseteq>| A"
  shows "collect_loop pg s = None
    \<and> (\<forall>br i dr st. br (search_url dr) = pg
           \<and> should_skip (checked_ranges st) (date_key dr) = Inr False
         \<longrightarrow> scrape_range br i dr st = None)"
proof -
  have never: "collect_loop pg s' = None" if "tweets s' |\<subseteq>| A" for s'
    using assms(1,2) that collect_loop_never_exits[of A s' pg] by (simp add: threshold_def)
  have "scrape_range br i dr st = None"
    if "br (search_url dr) = pg" "should_skip (checked_ranges st) (date_key dr) = Inr False"
    for br i dr st
    using that never[of "enter_range br dr"] by (simp add: scrape_range_def)
  with never[OF assms(3)] show ?thesis by blast
qed

theorem too_few_texts_never_exits_witness:
  "collect_loop (sample_page 499) (enter_range (sample_browser 499) (date_ranges ! 0)) = None
   \<and> scrape_range (sample_browser 499) 0 (date_ranges ! 0) fresh_state = None"
proof -
  have a: "fcard (fset_of_list (sample_texts 499)) < 500" by (simp add: fcard_sample_texts)
  have b: "\<forall>n. set (texts_at (sample_page 499) n) \<subseteq> fset (fset_of_list (sample_texts 499))"
    by (simp add: sample_page_def fset_of_list.rep_eq)
  have c: "tweets (enter_range (sample_browser 499) (date_ranges ! 0))
             |\<subseteq>| fset_of_list (sample_texts 499)"
    by simp
  have d: "sample_browser 499 (search_url (date_ranges ! 0)) = sample_page 499
      \<and> should_skip (checked_ranges fresh_state) (date_key (date_ranges ! 0)) = Inr False"
    by (simp add: sample_browser_def fresh_state_def should_skip_def)
  from too_few_texts_never_exits[OF a b c] d show ?thesis by blast
qed

subsection \<open>One date range\<close>

lemma should_skip_dict:
  "should_skip (PDict d) k = Inr (\<exists>v. map_of d k = Some v \<and> truthy v)"
  by (cases "map_of d k") (simp_all add: should_skip_def)

lemma should_skip_empty [simp]: "should_skip (PDict []) k = Inr False"
  by (simp add: should_skip_dict)

lemma scrape_range_not_skipped:
  "should_skip (checked_ranges st) (date_key dr) = Inr False \<Longrightarrow>
   scrape_range br i dr st
     = map_option (save_range i dr st) (collect_loop (br (search_url dr)) (enter_range br dr))"
  by (simp add: scrape_range_def split: option.split)

lemma scrape_range_skipped:
  "should_skip (checked_ranges st) (date_key dr) = Inr True \<Longrightarrow>
   scrape_range br i dr st
     = Some (Returned (st\<lparr>trace := trace st
                @ [Print (''Skipping already checked range: '' @ date_key dr)]\<rparr>))"
  by (simp add: scrape_range_def)

lemma week_file_not_progress_file [simp]: "week_file i \<noteq> progress_file"
  by (simp add: week_file_def progress_file_def)

lemma outcome_files_save_range:
  "outcome_files (save_range i dr st s) (week_file i) = Some (Json (list_of_set (tweets s)))"
  by (simp add: save_range_def Let_def split: sum.split)

lemma outcome_trace_save_range:
  "Write_file (week_file i) (list_of_set (tweets s)) \<in> set (outcome_trace (save_range i dr st s))"
  by (simp add: save_range_def Let_def split: sum.split)

lemma distinct_sorted_list_of_fset: "distinct (sorted_list_of_fset S)"
  by (simp add: sorted_list_of_fset.rep_eq)

lemma length_sorted_list_of_fset: "length (sorted_list_of_fset S) = fcard S"
  by (simp add: sorted_list_of_fset.rep_eq fcard.rep_eq)

text \<open>
  C4: when the processing of a date range that is not skipped comes to an end, the loop has
  exited in some state, and the file of that range holds the texts of the set collected in
  that state, each once: a list of strings without duplicates, with the elements of the set
  and as long as the set is large, so 500 entries or more. The set holds the texts found by
  the scans of the turns made.
\<close>

theorem written_list_has_no_duplicates:
  assumes "scrape_range br i dr st = Some out"
    and "should_skip (checked_ranges st) (date_key dr) = Inr False"
  shows "\<exists>r xs. collect_loop (br (search_url dr)) (enter_range br dr) = Some r
           \<and> outcome_files out (week_file i) = Some (Json (PList (map PStr xs)))
           \<and> Write_file (week_file i) (PList (map PStr xs)) \<in> set (outcome_trace out)
           \<and> distinct xs
           \<and> set xs = fset (tweets r)
           \<and> length xs = fcard (tweets r)
           \<and> 500 \<le> length xs
           \<and> fset (tweets r) = (\<Union>k<turns r. set (texts_at (br (search_url dr)) k))"
proof -
  let ?pg = "br (search_url dr)"
  from assms obtain r where r: "collect_loop ?pg (enter_range br dr) = Some r"
    and out: "out = save_range i dr st r"
    by (auto simp add: scrape_range_not_skipped)
  from collect_loop_sound[OF r] obtain n where n: "r = (loop_body ?pg ^^ n) (enter_range br dr)"
    and big: "threshold \<le> fcard (tweets r)"
    by blast
  let ?xs = "sorted_list_of_fset (tweets r)"
  have turns: "turns r = n" using n by (simp add: turns_funpow)
  have scans: "fset (tweets r) = (\<Union>k<turns r. set (texts_at ?pg k))"
    using tweets_funpow[where pg = ?pg and n = n and s = "enter_range br dr"] n turns by simp
  have len: "length ?xs = fcard (tweets r)" by (rule length_sorted_list_of_fset)
  have "distinct ?xs" by (rule distinct_sorted_list_of_fset)
  moreover have "set ?xs = fset (tweets r)" by simp
  moreover have "500 \<le> length ?xs" using big len by (simp add: threshold_def)
  ultimately show ?thesis
    using r out scans len outcome_files_save_range[of i dr st r]
      outcome_trace_save_range[of i r dr st]
    unfolding list_of_set_def by (intro exI[of _ r] exI[of _ ?xs]) simp
qed

lemma scrape_range_sample:
  "threshold \<le> n \<Longrightarrow> should_skip (checked_ranges st) (date_key dr) = Inr False \<Longrightarrow>
   scrape_range (sample_browser n) i dr st
     = Some (save_range i dr st (loop_body (sample_page n) (enter_range (sample_browser n) dr)))"
  by (simp add: scrape_range_not_skipped sample_browser_def collect_sample_page)

theorem written_list_has_no_duplicates_witness:
  "\<exists>xs. outcome_files (save_range 0 (date_ranges ! 0) fresh_state
                (loop_body (sample_page 500) (enter_range (sample_browser 500) (date_ranges ! 0))))
              (week_file 0) = Some (Json (PList (map PStr xs)))
     \<and> distinct xs
     \<and> set xs = set (sample_texts 500)
     \<and> length xs = 500"
proof -
  let ?s = "enter_range (sample_browser 500) (date_ranges ! 0)"
  have skip: "should_skip (checked_ranges fresh_state) (date_key (date_ranges ! 0)) = Inr False"
    by (simp add: fresh_state_def)
  have run: "scrape_range (sample_browser 500) 0 (date_ranges ! 0) fresh_state
    = Some (save_range 0 (date_ranges ! 0) fresh_state (loop_body (sample_page 500) ?s))"
    by (rule scrape_range_sample[OF _ skip]) (simp add: threshold_def)
  have loop: "collect_loop (sample_browser 500 (search_url (date_ranges ! 0))) ?s
      = Some (loop_body (sample_page 500) ?s)"
    by (simp add: sample_browser_def collect_sample_page threshold_def)
  have texts: "fset (tweets (loop_body (sample_page 500) ?s)) = set (sample_texts 500)"
    by (simp add: sample_page_def fset_of_list.rep_eq)
  have size: "fcard (tweets (loop_body (sample_page 500) ?s)) = 500"
    by (simp add: sample_page_def fcard_sample_texts)
  from written_list_has_no_duplicates[OF run skip] loop obtain xs where
    "outcome_files (save_range 0 (date_ranges ! 0) fresh_state (loop_body (sample_page 500) ?s))
       (week_file 0) = Some (Json (PList (map PStr xs)))"
    "distinct xs" "set xs = fset (tweets (loop_body (sample_page 500) ?s))"
    "length xs = fcard (tweets (loop_body (sample_page 500) ?s))"
    by auto
  with texts size show ?thesis by auto
qed

text \<open>
  C1, as amended: the loop goes on as long as the size check sees fewer than 500 texts and
  exits at the first check that sees 500 or more. So it never exits with 499 or fewer, and
  nothing is collected after a check has seen 500 or more: the set that this check saw is
  the one written to the output file. But a turn adds all the texts of a scan, so the set
  may hold more than 500 texts when the loop exits.
\<close>

theorem collect_loop_exit:
  "(collect_loop pg s = Some r \<longleftrightarrow>
     (\<exists>n. r = (loop_body pg ^^ n) s \<and> 500 \<le> fcard (tweets r)
        \<and> (\<forall>k<n. fcard (tweets ((loop_body pg ^^ k) s)) < 500)))
   \<and> (scrape_range br i dr st = Some out
        \<and> should_skip (checked_ranges st) (date_key dr) = Inr False
      \<longrightarrow> (\<exists>n. 500 \<le> fcard (tweets ((loop_body (br (search_url dr)) ^^ n) (enter_range br dr)))
            \<and> (\<forall>k<n. fcard (tweets ((loop_body (br (search_url dr)) ^^ k) (enter_range br dr)))
                     < 500)
            \<and> outcome_files out (week_file i)
                = Some (Json (list_of_set
                    (tweets ((loop_body (br (search_url dr)) ^^ n) (enter_range br dr)))))))"
proof -
  have loop: "collect_loop pg s = Some r \<longleftrightarrow>
     (\<exists>n. r = (loop_body pg ^^ n) s \<and> 500 \<le> fcard (tweets r)
        \<and> (\<forall>k<n. fcard (tweets ((loop_body pg ^^ k) s)) < 500))" for pg s r
    using collect_loop_sound[of pg s r] collect_loop_complete[where pg = pg and s = s]
    unfolding threshold_def by blast
  have "\<exists>n. 500 \<le> fcard (tweets ((loop_body (br (search_url dr)) ^^ n) (enter_range br dr)))
            \<and> (\<forall>k<n. fcard (tweets ((loop_body (br (search_url dr)) ^^ k) (enter_range br dr)))
                     < 500)
            \<and> outcome_files out (week_file i)
                = Some (Json (list_of_set
                    (tweets ((loop_body (br (search_url dr)) ^^ n) (enter_range br dr)))))"
    if "scrape_range br i dr st = Some out"
      and "should_skip (checked_ranges st) (date_key dr) = Inr False"
  proof -
    from that obtain r where r: "collect_loop (br (search_url dr)) (enter_range br dr) = Some r"
      and out: "out = save_range i dr st r"
      by (auto simp add: scrape_range_not_skipped)
    from r loop obtain n where "r = (loop_body (br (search_url dr)) ^^ n) (enter_range br dr)"
      "500 \<le> fcard (tweets r)"
      "\<forall>k<n. fcard (tweets ((loop_body (br (search_url dr)) ^^ k) (enter_range br dr))) < 500"
      by blast
    with out outcome_files_save_range[of i dr st r] show ?thesis by blast
  qed
  with loop show ?thesis by blast
qed

theorem collect_loop_exit_witness:
  "collect_loop (sample_page 500) (enter_range (sample_browser 500) (date_ranges ! 0))
     = Some (loop_body (sample_page 500) (enter_range (sample_browser 500) (date_ranges ! 0)))
   \<and> fcard (tweets (loop_body (sample_page 500) (enter_range (sample_browser 500) (date_ranges ! 0))))
     = 500
   \<and> (\<exists>n. outcome_files (save_range 0 (date_ranges ! 0) fresh_state
               (loop_body (sample_page 500) (enter_range (sample_browser 500) (date_ranges ! 0))))
             (week_file 0)
           = Some (Json (list_of_set (tweets ((loop_body
                (sample_browser 500 (search_url (date_ranges ! 0))) ^^ n)
                  (enter_range (sample_browser 500) (date_ranges ! 0)))))))"
proof -
  let ?s = "enter_range (sample_browser 500) (date_ranges ! 0)"
  have size: "fcard (tweets (loop_body (sample_page 500) ?s)) = 500"
    by (simp add: sample_page_def fcard_sample_texts)
  have turn: "\<exists>n. loop_body (sample_page 500) ?s = (loop_body (sample_page 500) ^^ n) ?s
        \<and> 500 \<le> fcard (tweets (loop_body (sample_page 500) ?s))
        \<and> (\<forall>k<n. fcard (tweets ((loop_body (sample_page 500) ^^ k) ?s)) < 500)"
    using size by (intro exI[of _ 1]) (simp add: fcard_fempty)
  have skip: "should_skip (checked_ranges fresh_state) (date_key (date_ranges ! 0)) = Inr False"
    by (simp add: fresh_state_def)
  have run: "scrape_range (sample_browser 500) 0 (date_ranges ! 0) fresh_state
    = Some (save_range 0 (date_ranges ! 0) fresh_state (loop_body (sample_page 500) ?s))"
    by (rule scrape_range_sample[OF _ skip]) (simp add: threshold_def)
  note inst = collect_loop_exit[where pg = "sample_page 500" and s = ?s
      and r = "loop_body (sample_page 500) ?s" and br = "sample_browser 500" and i = 0
      and dr = "date_ranges ! 0" and st = fresh_state
      and out = "save_range 0 (date_ranges ! 0) fresh_state (loop_body (sample_page 500) ?s)"]
  from inst turn have "collect_loop (sample_page 500) ?s = Some (loop_body (sample_page 500) ?s)"
    by blast
  moreover from inst run skip
  have "\<exists>n. outcome_files (save_range 0 (date_ranges ! 0) fresh_state
               (loop_body (sample_page 500) ?s)) (week_file 0)
           = Some (Json (list_of_set (tweets ((loop_body
                (sample_browser 500 (search_url (date_ranges ! 0))) ^^ n) ?s))))"
    by blast
  ultimately show ?thesis using size by blast
qed

text \<open>The set need not hold exactly 500 texts at the exit: when the first scan finds 501
  texts, the loop exits with all 501, and the output file gets 501 entries.\<close>

theorem exit_above_threshold:
  "map_option (fcard \<circ> tweets)
     (collect_loop (sample_page 501) (enter_range (sample_browser 501) (date_ranges ! 0)))
   = Some 501
   \<and> scrape_range (sample_browser 501) 0 (date_ranges ! 0) fresh_state
     = Some (save_range 0 (date_ranges ! 0) fresh_state
         (loop_body (sample_page 501) (enter_range (sample_browser 501) (date_ranges ! 0))))
   \<and> array_length (outcome_files (save_range 0 (date_ranges ! 0) fresh_state
         (loop_body (sample_page 501) (enter_range (sample_browser 501) (date_ranges ! 0))))
       (week_file 0))
     = Some 501"
proof -
  let ?s = "enter_range (sample_browser 501) (date_ranges ! 0)"
  have "collect_loop (sample_page 501) ?s = Some (loop_body (sample_page 501) ?s)"
    by (rule collect_sample_page) (simp_all add: threshold_def)
  moreover have size: "fcard (tweets (loop_body (sample_page 501) ?s)) = 501"
    by (simp add: sample_page_def fcard_sample_texts)
  moreover have "should_skip (checked_ranges fresh_state) (date_key (date_ranges ! 0)) = Inr False"
    by (simp add: fresh_state_def)
  then have "scrape_range (sample_browser 501) 0 (date_ranges ! 0) fresh_state
    = Some (save_range 0 (date_ranges ! 0) fresh_state (loop_body (sample_page 501) ?s))"
    by (rule scrape_range_sample[rotated]) (simp add: threshold_def)
  moreover have "array_length (outcome_files (save_range 0 (date_ranges ! 0) fresh_state
         (loop_body (sample_page 501) ?s)) (week_file 0)) = Some 501"
    unfolding outcome_files_save_range list_of_set_def
    using size by (simp add: length_sorted_list_of_fset)
  ultimately show ?thesis by simp
qed

subsection \<open>Skipping\<close>

lemma save_range_dict:
  "checked_ranges st = PDict d \<Longrightarrow>
   save_range i dr st s =
     Returned \<lparr>files = (files st)(week_file i \<mapsto> Json (list_of_set (tweets s)),
                    progress_file \<mapsto> Json (PDict (AList.update (date_key dr) (PBool True) d))),
               checked_ranges = PDict (AList.update (date_key dr) (PBool True) d),
               trace = trace st @ events s
                 @ [Print (''Finished scraping '' @ string_of_nat (fcard (tweets s))
                      @ '' tweets for '' @ start_date dr @ '' to '' @ end_date dr),
                    Write_file (week_file i) (list_of_set (tweets s)),
                    Write_file progress_file (PDict (AList.update (date_key dr) (PBool True) d))]\<rparr>"
  by (simp add: save_range_def Let_def)

lemma save_range_Returned:
  "save_range i dr st s = Returned st' \<Longrightarrow> \<exists>d. checked_ranges st = PDict d"
  by (cases "checked_ranges st") (simp_all add: save_range_def Let_def)

lemma save_range_Raised:
  "save_range i dr st s = Raised e fs tr \<Longrightarrow>
   fs = (files st)(week_file i \<mapsto> Json (list_of_set (tweets s)))
   \<and> tr = trace st @ events s
        @ [Print (''Finished scraping '' @ string_of_nat (fcard (tweets s))
             @ '' tweets for '' @ start_date dr @ '' to '' @ end_date dr),
           Write_file (week_file i) (list_of_set (tweets s))]"
  by (cases "checked_ranges st") (simp_all add: save_range_def Let_def)

lemma scrape_range_cases:
  assumes "scrape_range br i dr st = Some out"
  obtains (error) e where "should_skip (checked_ranges st) (date_key dr) = Inl e"
      "out = Raised e (files st) (trace st)"
    | (skipped) "should_skip (checked_ranges st) (date_key dr) = Inr True"
      "out = Returned (st\<lparr>trace := trace st
                @ [Print (''Skipping already checked range: '' @ date_key dr)]\<rparr>)"
    | (scraped) r where "should_skip (checked_ranges st) (date_key dr) = Inr False"
      "collect_loop (br (search_url dr)) (enter_range br dr) = Some r"
      "out = save_range i dr st r"
  using assms
  by (auto simp add: scrape_range_def split: sum.splits bool.splits option.splits)

lemma written_append [simp]: "written (xs @ ys) = written xs @ written ys"
  by (induction xs rule: written.induct) simp_all

lemma events_funpow:
  "\<exists>more. events ((loop_body pg ^^ n) s) = events s @ more
      \<and> written more = [] \<and> filter is_skip more = []"
proof (induction n)
  case 0
  show ?case by simp
next
  case (Suc n)
  then obtain more where more: "events ((loop_body pg ^^ n) s) = events s @ more"
    "written more = []" "filter is_skip more = []" by blast
  let ?t = "(loop_body pg ^^ n) s"
  let ?new = "[Find_elements,
        Print (''Collected '' @ string_of_nat (fcard (tweets (loop_body pg ?t))) @ '' tweets so far.''),
        Scroll_to_bottom, Sleep_uniform 2 5, Read_height]
     @ snd (check_stall (height_at pg (turns ?t)) (last_height ?t) (scroll_attempts ?t))"
  have "events ((loop_body pg ^^ Suc n) s) = events s @ (more @ ?new)"
    using more(1) by (simp add: events_loop_body)
  moreover have "written ?new = [] \<and> filter is_skip ?new = []"
    by (simp add: check_stall_cases)
  ultimately show ?case using more(2,3) by (intro exI[of _ "more @ ?new"]) simp
qed

lemma collect_loop_events:
  assumes "collect_loop pg (enter_range br dr) = Some r"
  shows "written (events r) = [] \<and> filter is_skip (events r) = []"
proof -
  from collect_loop_sound[OF assms] obtain n where "r = (loop_body pg ^^ n) (enter_range br dr)"
    by blast
  with events_funpow[where pg = pg and n = n and s = "enter_range br dr"] obtain more where
    "events r = events (enter_range br dr) @ more" "written more = []" "filter is_skip more = []"
    by blast
  then show ?thesis by (simp add: enter_range_def)
qed

lemma scrape_ranges_append:
  "scrape_ranges br (ws1 @ ws2) st =
     (case scrape_ranges br ws1 st of
        None \<Rightarrow> None
      | Some (Raised e fs tr) \<Rightarrow> Some (Raised e fs tr)
      | Some (Returned st1) \<Rightarrow> scrape_ranges br ws2 st1)"
  by (induction ws1 arbitrary: st) (auto split: option.splits outcome.splits)

lemma map_of_update_True:
  "map_of (AList.update k (PBool True) d) = (map_of d)(k \<mapsto> PBool True)"
  by (simp add: update_conv')

lemma scrape_range_keeps_mark:
  assumes "scrape_range br i dr st = Some (Returned st1)"
    and "should_skip (checked_ranges st) k = Inr True"
  shows "should_skip (checked_ranges st1) k = Inr True"
  using assms(1)
proof (cases rule: scrape_range_cases)
  case (error e) then show ?thesis by simp
next
  case skipped with assms(2) show ?thesis by simp
next
  case (scraped r)
  from scraped(3) save_range_Returned[of i dr st r st1] obtain d where d: "checked_ranges st = PDict d"
    by auto
  with scraped(3) assms(2) show ?thesis
    by (auto simp add: save_range_dict should_skip_dict map_of_update_True)
qed

lemma scrape_ranges_keeps_mark:
  "scrape_ranges br ws st = Some (Returned st1) \<Longrightarrow>
   should_skip (checked_ranges st) k = Inr True \<Longrightarrow>
   should_skip (checked_ranges st1) k = Inr True"
proof (induction ws arbitrary: st)
  case Nil then show ?case by simp
next
  case (Cons w ws)
  obtain i dr where w: "w = (i, dr)" by (cases w)
  from Cons.prems(1) w obtain st' where step: "scrape_range br i dr st = Some (Returned st')"
    and rest: "scrape_ranges br ws st' = Some (Returned st1)"
    by (auto split: option.splits outcome.splits)
  from Cons.IH[OF rest scrape_range_keeps_mark[OF step Cons.prems(2)]] show ?case .
qed

text \<open>
  C2: when the progress map holds a true value under the key of a date range (the JSON value
  \<^verbatim>\<open>true\<close> or any other value that counts as true), processing that range leaves the
  files and the progress map as they are and adds one console line to the trace: there is
  no navigation, no scan, no scroll and no file is written. In a run this holds wherever the
  range stands in the list, since the ranges processed before it leave its mark in place:
  the run continues with the next range from the state the earlier ranges have left.
\<close>

theorem marked_range_is_skipped:
  assumes "checked_ranges st = PDict d" and "map_of d (date_key dr) = Some v" and "truthy v"
  shows "scrape_range br i dr st
      = Some (Returned (st\<lparr>trace := trace st
                @ [Print (''Skipping already checked range: '' @ date_key dr)]\<rparr>))
    \<and> scrape_ranges br (before @ (i, dr) # after) st
      = (case scrape_ranges br before st of
           None \<Rightarrow> None
         | Some (Raised e fs tr) \<Rightarrow> Some (Raised e fs tr)
         | Some (Returned st1) \<Rightarrow>
             scrape_ranges br after (st1\<lparr>trace := trace st1
                @ [Print (''Skipping already checked range: '' @ date_key dr)]\<rparr>))"
proof -
  have marked: "should_skip (checked_ranges st) (date_key dr) = Inr True"
    using assms by (simp add: should_skip_dict)
  have "scrape_ranges br ((i, dr) # after) st1
      = scrape_ranges br after (st1\<lparr>trace := trace st1
                @ [Print (''Skipping already checked range: '' @ date_key dr)]\<rparr>)"
    if "scrape_ranges br before st = Some (Returned st1)" for st1
    using scrape_ranges_keeps_mark[OF that marked] by (simp add: scrape_range_skipped)
  then show ?thesis
    using scrape_range_skipped[OF marked, of br i]
    by (simp add: scrape_ranges_append split: option.split outcome.split)
qed

theorem marked_range_is_skipped_witness:
  "scrape_ranges (sample_browser 500) ([] @ (0, date_ranges ! 0) # [])
     (fresh_state\<lparr>checked_ranges := PDict [(''2024-08-09_to_2024-08-15'', PBool True)]\<rparr>)
   = Some (Returned \<lparr>files = Map.empty,
        checked_ranges = PDict [(''2024-08-09_to_2024-08-15'', PBool True)],
        trace = [Print ''Skipping already checked range: 2024-08-09_to_2024-08-15'']\<rparr>)"
proof -
  let ?st = "fresh_state\<lparr>checked_ranges := PDict [(''2024-08-09_to_2024-08-15'', PBool True)]\<rparr>"
  have a: "checked_ranges ?st = PDict [(''2024-08-09_to_2024-08-15'', PBool True)]" by simp
  have b: "map_of [(''2024-08-09_to_2024-08-15'', PBool True)] (date_key (date_ranges ! 0))
      = Some (PBool True)"
    by (simp add: date_ranges_def date_key_def)
  have c: "truthy (PBool True)" by simp
  from marked_range_is_skipped[OF a b c, where br = "sample_browser 500" and before = "[]" and i = 0 and after = "[]"]
  show ?thesis by (simp add: fresh_state_def date_ranges_def date_key_def)
qed

text \<open>
  C9: when the progress map holds a false value under the key of a date range (\<^verbatim>\<open>false\<close>,
  \<^verbatim>\<open>null\<close>, zero, an empty string, list or object), the range is not skipped: it is
  scraped by the same steps as a range whose key is absent. A range is skipped only when
  its key is present and the value stored under it counts as true.
\<close>

theorem falsy_mark_is_not_skipped:
  assumes "checked_ranges st = PDict d" and "map_of d (date_key dr) = Some v" and "\<not> truthy v"
  shows "should_skip (checked_ranges st) (date_key dr) = Inr False
    \<and> scrape_range br i dr st
        = map_option (save_range i dr st) (collect_loop (br (search_url dr)) (enter_range br dr))
    \<and> (should_skip (PDict d') k = Inr True \<longleftrightarrow> (\<exists>v'. map_of d' k = Some v' \<and> truthy v'))
    \<and> \<not> truthy (PBool False) \<and> \<not> truthy PNone \<and> \<not> truthy (PInt 0) \<and> \<not> truthy (PFloat 0)
    \<and> \<not> truthy (PStr []) \<and> \<not> truthy (PList []) \<and> \<not> truthy (PDict [])"
proof -
  have "should_skip (checked_ranges st) (date_key dr) = Inr False"
    using assms by (simp add: should_skip_dict)
  then show ?thesis
    using scrape_range_not_skipped[of st dr br i] by (simp add: should_skip_dict)
qed

theorem falsy_mark_is_not_skipped_witness:
  "scrape_range (sample_browser 500) 0 (date_ranges ! 0)
     (fresh_state\<lparr>checked_ranges := PDict [(''2024-08-09_to_2024-08-15'', PBool False)]\<rparr>)
   = Some (save_range 0 (date_ranges ! 0)
       (fresh_state\<lparr>checked_ranges := PDict [(''2024-08-09_to_2024-08-15'', PBool False)]\<rparr>)
       (loop_body (sample_page 500) (enter_range (sample_browser 500) (date_ranges ! 0))))"
proof -
  let ?st = "fresh_state\<lparr>checked_ranges := PDict [(''2024-08-09_to_2024-08-15'', PBool False)]\<rparr>"
  have a: "checked_ranges ?st = PDict [(''2024-08-09_to_2024-08-15'', PBool False)]" by simp
  have b: "map_of [(''2024-08-09_to_2024-08-15'', PBool False)] (date_key (date_ranges ! 0))
      = Some (PBool False)"
    by (simp add: date_ranges_def date_key_def)
  have c: "\<not> truthy (PBool False)" by simp
  have "collect_loop (sample_browser 500 (search_url (date_ranges ! 0)))
          (enter_range (sample_browser 500) (date_ranges ! 0))
      = Some (loop_body (sample_page 500) (enter_range (sample_browser 500) (date_ranges ! 0)))"
    by (simp add: sample_browser_def collect_sample_page threshold_def)
  with falsy_mark_is_not_skipped[OF a b c, where br = "sample_browser 500" and i = 0]
  show ?thesis by simp
qed

subsection \<open>Keys, file names and the progress file\<close>

lemma configured_keys_and_files:
  "map (\<lambda>(i, dr). (date_key dr, week_file i)) (enumerate 0 date_ranges) =
    [(''2024-08-09_to_2024-08-15'', ''week1.json''),
     (''2024-08-16_to_2024-08-22'', ''week2.json''),
     (''2024-08-23_to_2024-08-29'', ''week3.json''),
     (''2024-08-30_to_2024-09-13'', ''week4.json''),
     (''2024-09-14_to_2024-09-19'', ''week5.json''),
     (''2024-09-20_to_2024-09-26'', ''week6.json''),
     (''2024-09-27_to_2024-10-03'', ''week7.json''),
     (''2024-10-04_to_2024-10-18'', ''week8.json''),
     (''2024-10-19_to_2024-10-24'', ''week9.json''),
     (''2024-10-25_to_2024-10-31'', ''week10.json''),
     (''2024-11-01_to_2024-11-07'', ''week11.json''),
     (''2024-11-08_to_2024-11-22'', ''week12.json''),
     (''2024-11-23_to_2024-11-28'', ''week13.json''),
     (''2024-11-29_to_2024-12-05'', ''week14.json''),
     (''2024-12-06_to_2024-12-12'', ''week15.json''),
     (''2024-12-13_to_2024-12-19'', ''week16.json'')]"
  by code_simp

lemma distinct_configured_keys: "distinct (map (\<lambda>w. date_key (snd w)) (enumerate 0 date_ranges))"
  by code_simp

text \<open>
  C7: for the configured date ranges, in their order, the key is the start date, then
  \<^verbatim>\<open>_to_\<close>, then the end date, and the output file is \<^verbatim>\<open>week\<close>, the position of the
  range counted from 1, and \<^verbatim>\<open>.json\<close>. When a date range has been scraped, the last thing
  done is to write the whole progress map to the progress file: the map as it was before
  this range, with the key of this range set to true.
\<close>

theorem keys_file_names_and_progress:
  "map (\<lambda>(i, dr). (date_key dr, week_file i)) (enumerate 0 date_ranges) =
    [(''2024-08-09_to_2024-08-15'', ''week1.json''),
     (''2024-08-16_to_2024-08-22'', ''week2.json''),
     (''2024-08-23_to_2024-08-29'', ''week3.json''),
     (''2024-08-30_to_2024-09-13'', ''week4.json''),
     (''2024-09-14_to_2024-09-19'', ''week5.json''),
     (''2024-09-20_to_2024-09-26'', ''week6.json''),
     (''2024-09-27_to_2024-10-03'', ''week7.json''),
     (''2024-10-04_to_2024-10-18'', ''week8.json''),
     (''2024-10-19_to_2024-10-24'', ''week9.json''),
     (''2024-10-25_to_2024-10-31'', ''week10.json''),
     (''2024-11-01_to_2024-11-07'', ''week11.json''),
     (''2024-11-08_to_2024-11-22'', ''week12.json''),
     (''2024-11-23_to_2024-11-28'', ''week13.json''),
     (''2024-11-29_to_2024-12-05'', ''week14.json''),
     (''2024-12-06_to_2024-12-12'', ''week15.json''),
     (''2024-12-13_to_2024-12-19'', ''week16.json'')]
   \<and> date_key dr = start_date dr @ ''_to_'' @ end_date dr
   \<and> week_file i = ''week'' @ string_of_nat (i + 1) @ ''.json''
   \<and> (scrape_range br i dr st = Some (Returned st')
        \<and> should_skip (checked_ranges st) (date_key dr) = Inr False
      \<longrightarrow> (\<exists>d d'. checked_ranges st = PDict d
             \<and> map_of d' = (map_of d)(date_key dr \<mapsto> PBool True)
             \<and> checked_ranges st' = PDict d'
             \<and> files st' progress_file = Some (Json (PDict d'))
             \<and> last (trace st') = Write_file progress_file (PDict d')))"
proof -
  have "\<exists>d d'. checked_ranges st = PDict d
             \<and> map_of d' = (map_of d)(date_key dr \<mapsto> PBool True)
             \<and> checked_ranges st' = PDict d'
             \<and> files st' progress_file = Some (Json (PDict d'))
             \<and> last (trace st') = Write_file progress_file (PDict d')"
    if run: "scrape_range br i dr st = Some (Returned st')"
      and skip: "should_skip (checked_ranges st) (date_key dr) = Inr False"
  proof -
    from run skip obtain r where r: "save_range i dr st r = Returned st'"
      by (auto simp add: scrape_range_not_skipped)
    from save_range_Returned[OF r] obtain d where d: "checked_ranges st = PDict d" by blast
    from r show ?thesis
      unfolding save_range_dict[OF d]
      by (intro exI[of _ d] exI[of _ "AList.update (date_key dr) (PBool True) d"])
         (auto simp add: d map_of_update_True)
  qed
  then show ?thesis
    using configured_keys_and_files by (simp add: date_key_def week_file_def)
qed

theorem keys_file_names_and_progress_witness:
  "\<exists>st' d'. scrape_range (sample_browser 500) 0 (date_ranges ! 0) fresh_state = Some (Returned st')
     \<and> files st' progress_file = Some (Json (PDict d'))
     \<and> map_of d' ''2024-08-09_to_2024-08-15'' = Some (PBool True)"
proof -
  have skip: "should_skip (checked_ranges fresh_state) (date_key (date_ranges ! 0)) = Inr False"
    by (simp add: fresh_state_def)
  have "checked_ranges fresh_state = PDict []" by (simp add: fresh_state_def)
  from save_range_dict[OF this] obtain st' where
    "save_range 0 (date_ranges ! 0) fresh_state
       (loop_body (sample_page 500) (enter_range (sample_browser 500) (date_ranges ! 0)))
     = Returned st'" by simp
  then have run: "scrape_range (sample_browser 500) 0 (date_ranges ! 0) fresh_state
      = Some (Returned st')"
    using scrape_range_sample[OF _ skip, of 500 0] by (simp add: threshold_def)
  have key: "date_key (date_ranges ! 0) = ''2024-08-09_to_2024-08-15''"
    by (simp add: date_ranges_def date_key_def)
  from keys_file_names_and_progress[of "date_ranges ! 0" 0 "sample_browser 500" fresh_state st']
    run skip
  obtain d d' where "map_of d' = (map_of d)(date_key (date_ranges ! 0) \<mapsto> PBool True)"
    "files st' progress_file = Some (Json (PDict d'))" by blast
  with run key show ?thesis by auto
qed

subsection \<open>Loading the progress map\<close>



subsection \<open>Output file first, progress file second\<close>

lemma written_mem: "Write_file name v \<in> set evs \<Longrightarrow> name \<in> set (written evs)"
  by (induction evs rule: written.induct) auto

lemma split_before:
  assumes "tr @ evs = p @ Write_file progress_file cr # q"
    and "progress_file \<notin> set (written evs)"
  shows "\<exists>q'. tr = p @ Write_file progress_file cr # q'"
proof -
  from assms(1) obtain us where
    "(tr = p @ us \<and> us @ evs = Write_file progress_file cr # q)
     \<or> (tr @ us = p \<and> evs = us @ Write_file progress_file cr # q)"
    by (auto simp add: append_eq_append_conv2)
  then show ?thesis
  proof
    assume a: "tr = p @ us \<and> us @ evs = Write_file progress_file cr # q"
    show ?thesis
    proof (cases us)
      case Nil
      with a have "Write_file progress_file cr \<in> set evs" by simp
      from written_mem[OF this] assms(2) show ?thesis by simp
    next
      case (Cons u us')
      with a show ?thesis by simp
    qed
  next
    assume "tr @ us = p \<and> evs = us @ Write_file progress_file cr # q"
    then have "Write_file progress_file cr \<in> set evs" by simp
    from written_mem[OF this] assms(2) show ?thesis by simp
  qed
qed

lemma split_last:
  assumes "tr @ evs @ [Write_file progress_file cr'] = p @ Write_file progress_file cr # q"
    and "progress_file \<notin> set (written evs)"
  shows "(\<exists>q'. tr = p @ Write_file progress_file cr # q') \<or> (p = tr @ evs \<and> cr = cr')"
proof (cases q rule: rev_cases)
  case Nil
  with assms(1) have "(tr @ evs) @ [Write_file progress_file cr'] = p @ [Write_file progress_file cr]"
    by simp
  then show ?thesis by simp
next
  case (snoc q' x)
  with assms(1) have "tr @ evs = p @ Write_file progress_file cr # q'"
    by (metis append_assoc append_Cons butlast_snoc)
  from split_before[OF this assms(2)] show ?thesis by blast
qed

lemma accounted_mono:
  "accounted W cr0 cr p \<Longrightarrow> set (written p) \<subseteq> set (written p') \<Longrightarrow> accounted W cr0 cr p'"
  unfolding accounted_def by blast

lemma marked_update:
  "marked (PDict (AList.update k (PBool True) d)) k' \<longleftrightarrow> k' = k \<or> marked (PDict d) k'"
  by (auto simp add: marked_def should_skip_dict map_of_update_True)

lemma marks_follow_writes:
  assumes dist: "distinct (map (\<lambda>w. date_key (snd w)) W)"
  shows "set ws \<subseteq> set W \<Longrightarrow> scrape_ranges br ws st = Some out \<Longrightarrow>
     accounted W cr0 (checked_ranges st) (trace st) \<Longrightarrow>
     (\<forall>p cr q. trace st = p @ Write_file progress_file cr # q \<longrightarrow> accounted W cr0 cr p) \<Longrightarrow>
     (\<forall>p cr q. outcome_trace out = p @ Write_file progress_file cr # q \<longrightarrow> accounted W cr0 cr p)"
proof (induction ws arbitrary: st)
  case Nil
  then show ?case by auto
next
  case (Cons w ws)
  obtain i dr where w: "w = (i, dr)" by (cases w)
  have inW: "(i, dr) \<in> set W" and sub: "set ws \<subseteq> set W" using Cons.prems(1) w by auto
  from Cons.prems(2) w obtain o1 where step: "scrape_range br i dr st = Some o1"
    and rest: "(case o1 of Raised e fs tr \<Rightarrow> Some (Raised e fs tr)
                 | Returned st1 \<Rightarrow> scrape_ranges br ws st1) = Some out"
    by (auto split: option.splits)
  note acc = Cons.prems(3) and old = Cons.prems(4)
  from step show ?case
  proof (cases rule: scrape_range_cases)
    case (error e)
    with rest have "outcome_trace out = trace st" by auto
    with old show ?thesis by simp
  next
    case skipped
    let ?st1 = "st\<lparr>trace := trace st @ [Print (''Skipping already checked range: '' @ date_key dr)]\<rparr>"
    from skipped rest have run: "scrape_ranges br ws ?st1 = Some out" by simp
    have a: "accounted W cr0 (checked_ranges ?st1) (trace ?st1)"
      using accounted_mono[OF acc, of "trace ?st1"] by simp
    have b: "\<forall>p cr q. trace ?st1 = p @ Write_file progress_file cr # q \<longrightarrow> accounted W cr0 cr p"
    proof (intro allI impI)
      fix p cr q assume "trace ?st1 = p @ Write_file progress_file cr # q"
      then have "trace st @ [Print (''Skipping already checked range: '' @ date_key dr)]
          = p @ Write_file progress_file cr # q" by simp
      from split_before[OF this] old show "accounted W cr0 cr p" by auto
    qed
    from Cons.IH[OF sub run a b] show ?thesis .
  next
    case (scraped r)
    define evs where "evs = events r
       @ [Print (''Finished scraping '' @ string_of_nat (fcard (tweets r))
            @ '' tweets for '' @ start_date dr @ '' to '' @ end_date dr),
          Write_file (week_file i) (list_of_set (tweets r))]"
    have quiet: "progress_file \<notin> set (written evs)"
      using collect_loop_events[OF scraped(2)] week_file_not_progress_file[of i]
      by (simp add: evs_def eq_commute[of progress_file])
    have week: "week_file i \<in> set (written (trace st @ evs))" by (simp add: evs_def)
    show ?thesis
    proof (cases o1)
      case (Raised e fs tr)
      with scraped(3) have "save_range i dr st r = Raised e fs tr" by simp
      from save_range_Raised[OF this] have "tr = trace st @ evs" by (simp add: evs_def)
      moreover from rest Raised have "out = Raised e fs tr" by simp
      ultimately have tr: "outcome_trace out = trace st @ evs" by simp
      show ?thesis
      proof (intro allI impI)
        fix p cr q assume "outcome_trace out = p @ Write_file progress_file cr # q"
        with tr have "trace st @ evs = p @ Write_file progress_file cr # q" by simp
        from split_before[OF this quiet] old show "accounted W cr0 cr p" by auto
      qed
    next
      case (Returned st1)
      with scraped(3) have saved: "save_range i dr st r = Returned st1" by simp
      from save_range_Returned[OF this] obtain d where
        d: "checked_ranges st = PDict d" by blast
      let ?cr = "PDict (AList.update (date_key dr) (PBool True) d)"
      from saved have st1: "checked_ranges st1 = ?cr"
        "trace st1 = trace st @ evs @ [Write_file progress_file ?cr]"
        unfolding save_range_dict[OF d] by (auto simp add: evs_def)
      from Returned rest have run: "scrape_ranges br ws st1 = Some out" by simp
      have new: "accounted W cr0 ?cr (trace st @ evs)"
        unfolding accounted_def
      proof (intro ballI impI)
        fix w' assume w': "w' \<in> set W" and m: "marked ?cr (date_key (snd w'))"
        show "marked cr0 (date_key (snd w')) \<or> week_file (fst w') \<in> set (written (trace st @ evs))"
        proof (cases "date_key (snd w') = date_key dr")
          case True
          from dist have "inj_on (\<lambda>w. date_key (snd w)) (set W)" by (simp add: distinct_map)
          from inj_onD[OF this _ w' inW] True have "w' = (i, dr)" by simp
          with week show ?thesis by simp
        next
          case False
          with m have "marked (PDict d) (date_key (snd w'))" by (simp add: marked_update)
          with acc d w' show ?thesis unfolding accounted_def by auto
        qed
      qed
      have "set (written (trace st @ evs)) \<subseteq> set (written (trace st1))"
        by (auto simp add: st1(2))
      from accounted_mono[OF new this]
      have a: "accounted W cr0 (checked_ranges st1) (trace st1)"
        by (simp only: st1(1))
      have b: "\<forall>p cr q. trace st1 = p @ Write_file progress_file cr # q \<longrightarrow> accounted W cr0 cr p"
      proof (intro allI impI)
        fix p cr q assume "trace st1 = p @ Write_file progress_file cr # q"
        with st1(2) have "trace st @ evs @ [Write_file progress_file ?cr]
            = p @ Write_file progress_file cr # q" by simp
        from split_last[OF this quiet] old new show "accounted W cr0 cr p" by auto
      qed
      from Cons.IH[OF sub run a b] show ?thesis .
    qed
  qed
qed

lemma progress_writes_accounted:
  assumes "scrape_ranges br (take m (enumerate 0 date_ranges)) (start_state fs loaded) = Some out"
  shows "\<forall>p cr q. outcome_trace out = p @ Write_file progress_file cr # q
      \<longrightarrow> accounted (enumerate 0 date_ranges) loaded cr p"
proof (rule marks_follow_writes[OF distinct_configured_keys _ assms])
  show "set (take m (enumerate 0 date_ranges)) \<subseteq> set (enumerate 0 date_ranges)"
    by (rule set_take_subset)
  show "accounted (enumerate 0 date_ranges) loaded (checked_ranges (start_state fs loaded))
      (trace (start_state fs loaded))"
    by (simp add: accounted_def start_state_def)
  show "\<forall>p cr q. trace (start_state fs loaded) = p @ Write_file progress_file cr # q
      \<longrightarrow> accounted (enumerate 0 date_ranges) loaded cr p"
    by (auto simp add: start_state_def append_eq_Cons_conv Cons_eq_append_conv)
qed

lemma replay_append: "replay fs (xs @ ys) = replay (replay fs xs) ys"
proof (induction xs arbitrary: fs)
  case Nil
  show ?case by simp
next
  case (Cons e xs)
  then show ?case by (cases e) (simp_all del: fun_upd_apply)
qed

lemma replay_quiet: "written evs = [] \<Longrightarrow> replay fs evs = fs"
proof (induction evs arbitrary: fs)
  case Nil
  show ?case by simp
next
  case (Cons e evs)
  then show ?case by (cases e) (simp_all del: fun_upd_apply)
qed

lemma replay_keeps: "fs name \<noteq> None \<Longrightarrow> replay fs evs name \<noteq> None"
proof (induction evs arbitrary: fs)
  case Nil
  then show ?case by simp
next
  case (Cons e evs)
  show ?case
  proof (cases e)
    case (Write_file n v)
    have "replay (fs(n \<mapsto> Json v)) evs name \<noteq> None"
    proof (rule Cons.IH)
      show "(fs(n \<mapsto> Json v)) name \<noteq> None" using Cons.prems by simp
    qed
    then show ?thesis by (simp add: Write_file del: fun_upd_apply)
  qed (use Cons in simp_all)
qed

lemma replay_written: "name \<in> set (written evs) \<Longrightarrow> replay fs evs name \<noteq> None"
proof (induction evs arbitrary: fs)
  case Nil
  then show ?case by simp
next
  case (Cons e evs)
  show ?case
  proof (cases e)
    case (Write_file n v)
    have "replay (fs(n \<mapsto> Json v)) evs name \<noteq> None"
    proof (cases "n = name")
      case True
      show ?thesis
      proof (rule replay_keeps)
        show "(fs(n \<mapsto> Json v)) name \<noteq> None" using True by simp
      qed
    next
      case False
      with Cons.prems Write_file have "name \<in> set (written evs)" by simp
      then show ?thesis by (rule Cons.IH)
    qed
    then show ?thesis by (simp add: Write_file del: fun_upd_apply)
  qed (use Cons in simp_all)
qed

lemma replay_unwritten: "name \<notin> set (written evs) \<Longrightarrow> replay fs evs name = fs name"
proof (induction evs arbitrary: fs)
  case Nil
  show ?case by simp
next
  case (Cons e evs)
  show ?case
  proof (cases e)
    case (Write_file n v)
    with Cons.prems have out: "name \<notin> set (written evs)" and other: "n \<noteq> name" by auto
    have "replay (fs(n \<mapsto> Json v)) evs name = (fs(n \<mapsto> Json v)) name"
      using out by (rule Cons.IH)
    also have "\<dots> = fs name" using other by simp
    finally show ?thesis by (simp add: Write_file del: fun_upd_apply)
  qed (use Cons in simp_all)
qed

lemma replay_last_write:
  "name \<in> set (written evs) \<Longrightarrow>
   \<exists>before v after. evs = before @ Write_file name v # after
      \<and> replay fs evs name = Some (Json v)"
proof (induction evs arbitrary: fs rule: rev_induct)
  case Nil
  then show ?case by simp
next
  case (snoc e evs)
  show ?case
  proof (cases "\<exists>v. e = Write_file name v")
    case True
    then obtain v where "e = Write_file name v" by blast
    then have "evs @ [e] = evs @ Write_file name v # [] \<and> replay fs (evs @ [e]) name = Some (Json v)"
      by (simp add: replay_append)
    then show ?thesis by blast
  next
    case False
    then have "written [e] \<noteq> [name]" by (cases e) auto
    moreover have "written [e] = [] \<or> (\<exists>n. written [e] = [n])" by (cases e) auto
    ultimately have e: "name \<notin> set (written [e])" by auto
    with snoc.prems have "name \<in> set (written evs)" by simp
    from snoc.IH[OF this, of fs] obtain before v after where
      "evs = before @ Write_file name v # after" "replay fs evs name = Some (Json v)" by blast
    then have "evs @ [e] = before @ Write_file name v # (after @ [e])
        \<and> replay fs (evs @ [e]) name = Some (Json v)"
      using replay_unwritten[OF e, of "replay fs evs"] by (simp add: replay_append)
    then show ?thesis by blast
  qed
qed

lemma scrape_range_files:
  assumes "scrape_range br i dr st = Some out" and "files st = replay fs (trace st)"
  shows "outcome_files out = replay fs (outcome_trace out)"
  using assms(1)
proof (cases rule: scrape_range_cases)
  case (error e)
  with assms(2) show ?thesis by simp
next
  case skipped
  with assms(2) show ?thesis by (simp add: replay_append)
next
  case (scraped r)
  have quiet: "replay fs' (events r) = fs'" for fs'
    using collect_loop_events[OF scraped(2)] by (simp add: replay_quiet)
  show ?thesis
  proof (cases "save_range i dr st r")
    case (Raised e fs1 tr)
    from save_range_Raised[OF this] Raised scraped(3) assms(2) quiet show ?thesis
      by (simp add: replay_append)
  next
    case (Returned st1)
    from save_range_Returned[OF this] obtain d where d: "checked_ranges st = PDict d" by blast
    from Returned scraped(3) assms(2) quiet show ?thesis
      unfolding save_range_dict[OF d] by (auto simp add: replay_append)
  qed
qed

lemma scrape_ranges_files:
  "scrape_ranges br ws st = Some out \<Longrightarrow> files st = replay fs (trace st) \<Longrightarrow>
   outcome_files out = replay fs (outcome_trace out)"
proof (induction ws arbitrary: st)
  case Nil
  then show ?case by auto
next
  case (Cons w ws)
  obtain i dr where w: "w = (i, dr)" by (cases w)
  from Cons.prems(1) w obtain o1 where step: "scrape_range br i dr st = Some o1"
    and rest: "(case o1 of Raised e fs tr \<Rightarrow> Some (Raised e fs tr)
                 | Returned st1 \<Rightarrow> scrape_ranges br ws st1) = Some out"
    by (auto split: option.splits)
  from scrape_range_files[OF step Cons.prems(2)]
  have o1: "outcome_files o1 = replay fs (outcome_trace o1)" .
  show ?case
  proof (cases o1)
    case (Raised e fs1 tr)
    with rest o1 show ?thesis by auto
  next
    case (Returned st1)
    with rest o1 Cons.IH[of st1] show ?thesis by simp
  qed
qed

lemma loaded_marks:
  "load_progress fs = Inr loaded \<Longrightarrow> marked loaded k \<Longrightarrow> progress_marks fs k"
  by (auto simp add: load_progress_def progress_marks_def marked_def
      split: option.splits file_content.splits)

lemma consistent_replay:
  assumes cons: "consistent fs" and load: "load_progress fs = Inr loaded"
    and acc: "\<forall>p cr q. tr = p @ Write_file progress_file cr # q
      \<longrightarrow> accounted (enumerate 0 date_ranges) loaded cr p"
    and pre: "prefix p tr"
  shows "consistent (replay fs p)"
  unfolding consistent_def
proof (intro ballI impI)
  fix w assume w: "w \<in> set (enumerate 0 date_ranges)"
    and m: "progress_marks (replay fs p) (date_key (snd w))"
  from pre obtain rest where tr: "tr = p @ rest" by (auto simp add: prefix_def)
  have old: "replay fs p (week_file (fst w)) \<noteq> None" if "progress_marks fs (date_key (snd w))"
  proof (rule replay_keeps)
    from cons w that show "fs (week_file (fst w)) \<noteq> None" unfolding consistent_def by blast
  qed
  show "replay fs p (week_file (fst w)) \<noteq> None"
  proof (cases "progress_file \<in> set (written p)")
    case True
    from replay_last_write[OF True, of fs] obtain before v after where
      p: "p = before @ Write_file progress_file v # after"
      and now: "replay fs p progress_file = Some (Json v)" by blast
    from m now have mv: "marked v (date_key (snd w))" by (simp add: progress_marks_def)
    from tr p have "tr = before @ Write_file progress_file v # (after @ rest)" by simp
    with acc have "accounted (enumerate 0 date_ranges) loaded v before" by blast
    with w mv have "marked loaded (date_key (snd w)) \<or> week_file (fst w) \<in> set (written before)"
      unfolding accounted_def by blast
    then show ?thesis
    proof
      assume "marked loaded (date_key (snd w))"
      from old[OF loaded_marks[OF load this]] show ?thesis .
    next
      assume "week_file (fst w) \<in> set (written before)"
      with p have "week_file (fst w) \<in> set (written p)" by simp
      then show ?thesis by (rule replay_written)
    qed
  next
    case False
    from replay_unwritten[OF False, of fs] m have "progress_marks fs (date_key (snd w))"
      by (simp add: progress_marks_def)
    then show ?thesis by (rule old)
  qed
qed

text \<open>
  C6: when a date range has been scraped, the events of that range end with the write of
  its output file followed by the write of the progress file, whose map marks the range
  complete and is the map the run continues with; no file is written before these two. So
  the order keeps the files consistent: in a run that starts from files in which every
  configured range marked complete in the progress file has its output file (as when there
  are no files yet), the same holds after every event of the run, be it a run over all the
  configured ranges or over the first of them only; and the files a run leaves are the
  files it found with its writes applied.
\<close>

theorem output_written_before_progress:
  "(scrape_range br i dr st = Some (Returned st')
      \<and> should_skip (checked_ranges st) (date_key dr) = Inr False
    \<longrightarrow> (\<exists>evs w cr. trace st' = trace st @ evs
                 @ [Write_file (week_file i) w, Write_file progress_file cr]
             \<and> written evs = []
             \<and> marked cr (date_key dr)
             \<and> checked_ranges st' = cr
             \<and> files st' = (files st)(week_file i \<mapsto> Json w, progress_file \<mapsto> Json cr)))
   \<and> (consistent fs \<and> load_progress fs = Inr loaded
      \<and> scrape_ranges br' (take m (enumerate 0 date_ranges)) (start_state fs loaded) = Some out
      \<and> prefix p (outcome_trace out)
    \<longrightarrow> consistent (replay fs p) \<and> outcome_files out = replay fs (outcome_trace out))"
proof (intro conjI impI)
  assume "scrape_range br i dr st = Some (Returned st')
      \<and> should_skip (checked_ranges st) (date_key dr) = Inr False"
  then obtain r where r: "collect_loop (br (search_url dr)) (enter_range br dr) = Some r"
    and saved: "save_range i dr st r = Returned st'"
    by (auto simp add: scrape_range_not_skipped)
  from save_range_Returned[OF saved] obtain d where d: "checked_ranges st = PDict d" by blast
  define evs where "evs = events r
       @ [Print (''Finished scraping '' @ string_of_nat (fcard (tweets r))
            @ '' tweets for '' @ start_date dr @ '' to '' @ end_date dr)]"
  let ?cr = "PDict (AList.update (date_key dr) (PBool True) d)"
  have "written evs = []" using collect_loop_events[OF r] by (simp add: evs_def)
  moreover have "marked ?cr (date_key dr)" by (simp add: marked_update)
  moreover from saved have "trace st' = trace st @ evs
      @ [Write_file (week_file i) (list_of_set (tweets r)), Write_file progress_file ?cr]"
    "checked_ranges st' = ?cr"
    "files st' = (files st)(week_file i \<mapsto> Json (list_of_set (tweets r)),
       progress_file \<mapsto> Json ?cr)"
    unfolding save_range_dict[OF d] by (auto simp add: evs_def)
  ultimately show "\<exists>evs w cr. trace st' = trace st @ evs
                 @ [Write_file (week_file i) w, Write_file progress_file cr]
             \<and> written evs = []
             \<and> marked cr (date_key dr)
             \<and> checked_ranges st' = cr
             \<and> files st' = (files st)(week_file i \<mapsto> Json w, progress_file \<mapsto> Json cr)"
    by blast
next
  assume a: "consistent fs \<and> load_progress fs = Inr loaded
      \<and> scrape_ranges br' (take m (enumerate 0 date_ranges)) (start_state fs loaded) = Some out
      \<and> prefix p (outcome_trace out)"
  then have run: "scrape_ranges br' (take m (enumerate 0 date_ranges)) (start_state fs loaded)
      = Some out" by simp
  from consistent_replay[OF _ _ progress_writes_accounted[OF run]] a
  show "consistent (replay fs p)" by blast
next
  assume a: "consistent fs \<and> load_progress fs = Inr loaded
      \<and> scrape_ranges br' (take m (enumerate 0 date_ranges)) (start_state fs loaded) = Some out
      \<and> prefix p (outcome_trace out)"
  then have run: "scrape_ranges br' (take m (enumerate 0 date_ranges)) (start_state fs loaded)
      = Some out" by simp
  show "outcome_files out = replay fs (outcome_trace out)"
    by (rule scrape_ranges_files[OF run]) (simp add: start_state_def)
qed

theorem output_written_before_progress_witness:
  "\<exists>st1 cr. scrape_ranges (sample_browser 500) (take 1 (enumerate 0 date_ranges))
         (start_state Map.empty (PDict [])) = Some (Returned st1)
     \<and> files st1 progress_file = Some (Json cr)
     \<and> marked cr ''2024-08-09_to_2024-08-15''
     \<and> consistent (files st1)
     \<and> files st1 ''week1.json'' \<noteq> None"
proof -
  let ?st0 = "start_state Map.empty (PDict [])"
  let ?dr = "date_ranges ! 0"
  have start: "checked_ranges ?st0 = PDict []" by (simp add: start_state_def)
  have skip: "should_skip (checked_ranges ?st0) (date_key ?dr) = Inr False"
    by (simp add: start)
  from save_range_dict[OF start] obtain st1 where
    "save_range 0 ?dr ?st0 (loop_body (sample_page 500) (enter_range (sample_browser 500) ?dr))
     = Returned st1" by simp
  then have one: "scrape_range (sample_browser 500) 0 ?dr ?st0 = Some (Returned st1)"
    using scrape_range_sample[OF _ skip, of 500 0] by (simp add: threshold_def)
  have first: "take 1 (enumerate 0 date_ranges) = [(0, ?dr)]"
    by (simp add: date_ranges_def)
  have run: "scrape_ranges (sample_browser 500) (take 1 (enumerate 0 date_ranges)) ?st0
      = Some (Returned st1)"
    unfolding first using one by simp
  have key: "date_key ?dr = ''2024-08-09_to_2024-08-15''"
    by (simp add: date_ranges_def date_key_def)
  have name: "week_file 0 = ''week1.json''" by code_simp
  have empty: "consistent Map.empty" by (simp add: consistent_def progress_marks_def)
  have load: "load_progress Map.empty = Inr (PDict [])" by (simp add: load_progress_def)
  have whole: "prefix (trace st1) (outcome_trace (Returned st1))" by simp
  note inst = output_written_before_progress[where br = "sample_browser 500" and i = 0
      and dr = ?dr and st = ?st0 and st' = st1 and br' = "sample_browser 500" and m = 1
      and fs = Map.empty and loaded = "PDict []" and out = "Returned st1" and p = "trace st1"]
  from inst one skip obtain w cr where
    after: "files st1 = (files ?st0)(week_file 0 \<mapsto> Json w, progress_file \<mapsto> Json cr)"
    and m: "marked cr (date_key ?dr)" by blast
  from inst empty load run whole have "consistent (replay Map.empty (trace st1))"
    and "outcome_files (Returned st1) = replay Map.empty (outcome_trace (Returned st1))"
    by blast+
  then have cons: "consistent (files st1)" by simp
  from after have "files st1 progress_file = Some (Json cr)" "files st1 (week_file 0) \<noteq> None"
    by simp_all
  with run m cons show ?thesis unfolding key name by blast
qed

subsection \<open>A run without a progress file\<close>






end
